theory Spec2Isabelle
  imports Main "HOL-Library.Word"
begin

unbundle bit_operations_syntax

section \<open>Exceptions of the Python code as values\<close>

text \<open>
  Every exception the modelled functions can raise is one constructor. Python raises
  \<open>IndexError\<close> both for the explicit bounds check of \<open>opening\<close> and for a list
  subscript out of range, and \<open>AssertionError\<close> for both precondition checks of the
  circuit; the constructors keep them apart by their message.
\<close>

datatype error =
    InvalidInput
  | IndexOutOfRange
  | ListIndexError
  | OverflowError
  | LengthMismatch
  | InvalidPositionBit
  | VerificationFailure

text \<open>A list subscript \<open>xs[i]\<close> of Python: a negative index counts from the end.\<close>

definition py_index :: "'a list \<Rightarrow> int \<Rightarrow> error + 'a" where
  "py_index xs i =
     (if 0 \<le> i \<and> i < int (length xs) then Inr (xs ! nat i)
      else if i < 0 \<and> - int (length xs) \<le> i then Inr (xs ! nat (int (length xs) + i))
      else Inl ListIndexError)"

section \<open>hash_utils.py\<close>

definition FIELD_MODULUS :: int where
  "FIELD_MODULUS =
     21888242871839275222246405745257275088548364400416034343698204186575808495617"

text \<open>
  \<open>v.to_bytes(32, byteorder="big", signed=False)\<close>: 32 bytes, most significant first;
  Python raises \<open>OverflowError\<close> for a negative value and for one that does not fit.
\<close>

definition to_bytes32 :: "int \<Rightarrow> error + 8 word list" where
  "to_bytes32 v =
     (if v < 0 \<or> 2 ^ 256 \<le> v then Inl OverflowError
      else Inr (map (\<lambda>k. word_of_int (v div 256 ^ (31 - k))) [0..<32]))"

text \<open>\<open>int.from_bytes(digest, byteorder="big")\<close>.\<close>

definition from_bytes_big :: "8 word list \<Rightarrow> int" where
  "from_bytes_big bs = foldl (\<lambda>acc b. acc * 256 + uint b) 0 bs"

text \<open>
  The loop \<open>for v in values: h.update(v.to_bytes(...))\<close>: the hasher's state is the
  sequence of bytes fed so far.
\<close>

fun update_all :: "int list \<Rightarrow> 8 word list \<Rightarrow> error + 8 word list" where
  "update_all [] fed = Inr fed"
| "update_all (v # vs) fed =
     (case to_bytes32 v of
        Inl e \<Rightarrow> Inl e
      | Inr bs \<Rightarrow> update_all vs (fed @ bs))"

text \<open>
  SHA-256 itself comes from \<open>hashlib\<close>; it is the parameter \<open>sha\<close>, a function from
  the bytes fed to the digest.
\<close>

definition sha256_to_field :: "(8 word list \<Rightarrow> 8 word list) \<Rightarrow> int list \<Rightarrow> error + int" where
  "sha256_to_field sha vals =
     (case update_all vals [] of
        Inl e \<Rightarrow> Inl e
      | Inr fed \<Rightarrow> Inr (from_bytes_big (sha fed) mod FIELD_MODULUS))"

definition merkle_hash2 :: "(8 word list \<Rightarrow> 8 word list) \<Rightarrow> int \<Rightarrow> int \<Rightarrow> error + int" where
  "merkle_hash2 sha left right = sha256_to_field sha [left, right]"

section \<open>merkle_tree.py\<close>

definition field :: "int \<Rightarrow> int" where
  "field val = val mod FIELD_MODULUS"

record MerkleTree =
  leaves :: "int list"
  levels :: "int list list"

text \<open>
  The inner loop of \<open>_build_tree\<close>, \<open>for i in range(0, len(level), 2)\<close>, with the
  list \<open>next_level\<close> built so far.
\<close>

function build_row ::
  "(8 word list \<Rightarrow> 8 word list) \<Rightarrow> int list \<Rightarrow> nat \<Rightarrow> int list \<Rightarrow> error + int list" where
  "build_row sha level i next_level =
     (if i < length level then
        (let left = level ! i;
             right = (if i + 1 < length level then level ! (i + 1) else left)
         in case merkle_hash2 sha left right of
              Inl e \<Rightarrow> Inl e
            | Inr parent \<Rightarrow> build_row sha level (i + 2) (next_level @ [parent]))
      else Inr next_level)"
  by pat_completeness auto
termination
  by (relation "measure (\<lambda>(sha, level, i, next_level). length level - i)") auto

lemma build_row_length:
  "build_row sha level i acc = Inr row \<Longrightarrow>
   length row = length acc + (length level - i + 1) div 2"
proof (induction sha level i acc rule: build_row.induct)
  case (1 sha level i next_level)
  show ?case
  proof (cases "i < length level")
    case True
    with "1.prems" obtain parent where
      p: "merkle_hash2 sha (level ! i)
            (if i + 1 < length level then level ! (i + 1) else level ! i) = Inr parent"
      and r: "build_row sha level (i + 2) (next_level @ [parent]) = Inr row"
      by (auto simp: Let_def split: sum.splits)
    have "(length level - (i + 2) + 1) div 2 + 1 = (length level - i + 1) div 2"
      using True by arith
    with "1.IH"[OF True refl refl p r] show ?thesis
      by simp
  next
    case False
    with "1.prems" show ?thesis by simp
  qed
qed

text \<open>
  The outer loop \<open>while len(level) > 1\<close>, with \<open>self.levels\<close> and the current level.
\<close>

function build_loop ::
  "(8 word list \<Rightarrow> 8 word list) \<Rightarrow> int list list \<Rightarrow> int list \<Rightarrow> error + int list list" where
  "build_loop sha lvls level =
     (if length level > 1 then
        (case build_row sha level 0 [] of
           Inl e \<Rightarrow> Inl e
         | Inr next_level \<Rightarrow> build_loop sha (lvls @ [next_level]) next_level)
      else Inr lvls)"
  by pat_completeness auto
termination
proof (relation "measure (\<lambda>(sha, lvls, level). length level)")
  show "wf (measure (\<lambda>(sha, lvls, level). length level))" by simp
next
  fix sha :: "8 word list \<Rightarrow> 8 word list" and lvls :: "int list list"
    and level next_level :: "int list"
  assume "1 < length level" and "build_row sha level 0 [] = Inr next_level"
  then show "((sha, lvls @ [next_level], next_level), (sha, lvls, level))
             \<in> measure (\<lambda>(sha, lvls, level). length level)"
    using build_row_length[of sha level 0 "[]" next_level] by simp
qed

text \<open>\<open>_build_tree\<close>: the leaves are the first level, then the loop runs.\<close>

definition build_tree :: "(8 word list \<Rightarrow> 8 word list) \<Rightarrow> MerkleTree \<Rightarrow> error + MerkleTree" where
  "build_tree sha t =
     (let level = leaves t in
      case build_loop sha (levels t @ [level]) level of
        Inl e \<Rightarrow> Inl e
      | Inr lvls \<Rightarrow> Inr (t\<lparr>levels := lvls\<rparr>))"

text \<open>\<open>MerkleTree.__init__\<close>.\<close>

definition MerkleTree_init :: "(8 word list \<Rightarrow> 8 word list) \<Rightarrow> int list \<Rightarrow> error + MerkleTree" where
  "MerkleTree_init sha lvs =
     (if length lvs = 0 then Inl InvalidInput
      else build_tree sha \<lparr>leaves = map field lvs, levels = []\<rparr>)"

text \<open>\<open>root\<close>: \<open>self.levels[-1][0]\<close>.\<close>

definition root :: "MerkleTree \<Rightarrow> error + int" where
  "root t =
     (case py_index (levels t) (- 1) of
        Inl e \<Rightarrow> Inl e
      | Inr top_level \<Rightarrow> py_index top_level 0)"

text \<open>
  The loop of \<open>opening\<close> over the levels below the root, with the cursor \<open>idx\<close> and
  the two lists built so far.
\<close>

fun opening_loop ::
  "int list list \<Rightarrow> int \<Rightarrow> int list \<Rightarrow> int list \<Rightarrow> error + (int list \<times> int list)" where
  "opening_loop [] idx siblings positions = Inr (siblings, positions)"
| "opening_loop (layer # upper) idx siblings positions =
     (let sib_idx = idx XOR 1 in
      case (if sib_idx \<ge> int (length layer) then py_index layer idx
            else py_index layer sib_idx) of
        Inl e \<Rightarrow> Inl e
      | Inr sib \<Rightarrow>
          opening_loop upper (idx div 2) (siblings @ [sib]) (positions @ [idx mod 2]))"

text \<open>\<open>MerkleTree.opening\<close> (\<open>opening\<close> alone is a keyword of Isabelle).\<close>

definition MerkleTree_opening :: "MerkleTree \<Rightarrow> int \<Rightarrow> error + (int list \<times> int list)" where
  "MerkleTree_opening t index =
     (if index < 0 \<or> index \<ge> int (length (leaves t)) then Inl IndexOutOfRange
      else opening_loop (take (length (levels t) - 1) (levels t)) index [] [])"

text \<open>The height the specification speaks of: the number of levels minus one.\<close>

definition height :: "MerkleTree \<Rightarrow> nat" where
  "height t = length (levels t) - 1"

section \<open>zk_merkle.py\<close>

text \<open>\<open>for h, pos in enumerate(positions): assert pos in (0, 1)\<close>.\<close>

fun check_positions :: "int list \<Rightarrow> error + unit" where
  "check_positions [] = Inr ()"
| "check_positions (pos # rest) =
     (if pos = 0 \<or> pos = 1 then check_positions rest else Inl InvalidPositionBit)"

text \<open>
  The walk \<open>for h in range(len(positions))\<close>. The Poseidon gadget is the parameter
  \<open>gadget\<close>: it takes the list of its inputs and returns the list of its outputs, of
  which the walk keeps the first.
\<close>

function walk_up ::
  "('v list \<Rightarrow> 'v list) \<Rightarrow> 'v list \<Rightarrow> int list \<Rightarrow> nat \<Rightarrow> 'v \<Rightarrow> error + 'v" where
  "walk_up gadget siblings positions h needle =
     (if h < length positions then
        (case py_index positions (int h) of
           Inl e \<Rightarrow> Inl e
         | Inr position_bit \<Rightarrow>
            (case py_index siblings (int h) of
               Inl e \<Rightarrow> Inl e
             | Inr sibling \<Rightarrow>
                (let left = (if position_bit = 0 then needle else sibling);
                     right = (if position_bit = 0 then sibling else needle)
                 in case py_index (gadget [left, right]) 0 of
                      Inl e \<Rightarrow> Inl e
                    | Inr parent \<Rightarrow> walk_up gadget siblings positions (h + 1) parent)))
      else Inr needle)"
  by pat_completeness auto
termination
  by (relation "measure (\<lambda>(gadget, siblings, positions, h, needle). length positions - h)")
     auto

text \<open>
  \<open>merkle_opening_circuit\<close> up to the end of its loop: the two checks, then the walk;
  the result is the final \<open>needle\<close>.
\<close>

definition recompute ::
  "('v list \<Rightarrow> 'v list) \<Rightarrow> 'v \<Rightarrow> 'v list \<Rightarrow> int list \<Rightarrow> error + 'v" where
  "recompute gadget leaf siblings positions =
     (if length siblings \<noteq> length positions then Inl LengthMismatch
      else case check_positions positions of
             Inl e \<Rightarrow> Inl e
           | Inr u \<Rightarrow> walk_up gadget siblings positions 0 leaf)"

text \<open>
  \<open>merkle_opening_circuit\<close>: the final needle, then
  \<open>(needle - public_root).assert_zero()\<close>.
\<close>

definition merkle_opening_circuit ::
  "('v::{minus,zero} list \<Rightarrow> 'v list) \<Rightarrow> 'v \<Rightarrow> 'v list \<Rightarrow> int list \<Rightarrow> 'v \<Rightarrow> error + unit" where
  "merkle_opening_circuit gadget leaf siblings positions public_root =
     (case recompute gadget leaf siblings positions of
        Inl e \<Rightarrow> Inl e
      | Inr needle \<Rightarrow>
          if needle - public_root = 0 then Inr () else Inl VerificationFailure)"

section \<open>Auxiliary notions for the proofs\<close>

text \<open>
  Field elements, the value \<open>merkle_hash2\<close> returns on field elements, the row above a
  level, and what it means for a list of levels to be built row by row up to a single
  node. They are used to state and prove facts about the functions above.
\<close>

definition in_field :: "int \<Rightarrow> bool" where
  "in_field x \<longleftrightarrow> 0 \<le> x \<and> x < FIELD_MODULUS"

definition bytes32 :: "int \<Rightarrow> 8 word list" where
  "bytes32 v = map (\<lambda>k. word_of_int (v div 256 ^ (31 - k))) [0..<32]"

definition hash2 :: "(8 word list \<Rightarrow> 8 word list) \<Rightarrow> int \<Rightarrow> int \<Rightarrow> int" where
  "hash2 sha l r = from_bytes_big (sha (bytes32 l @ bytes32 r)) mod FIELD_MODULUS"

definition parent_of :: "(8 word list \<Rightarrow> 8 word list) \<Rightarrow> int list \<Rightarrow> nat \<Rightarrow> int" where
  "parent_of sha level j =
     hash2 sha (level ! (2 * j))
       (if 2 * j + 1 < length level then level ! (2 * j + 1) else level ! (2 * j))"

definition next_row :: "(8 word list \<Rightarrow> 8 word list) \<Rightarrow> int list \<Rightarrow> int list" where
  "next_row sha level = map (parent_of sha level) [0..<(length level + 1) div 2]"

fun levels_chain :: "(8 word list \<Rightarrow> 8 word list) \<Rightarrow> int list list \<Rightarrow> bool" where
  "levels_chain sha [] = False"
| "levels_chain sha [l] = (length l = 1)"
| "levels_chain sha (l # l' # rest) =
     (1 < length l \<and> l' = next_row sha l \<and> levels_chain sha (l' # rest))"

text \<open>The sibling \<open>opening\<close> records at a level for the cursor \<open>idx\<close>.\<close>

definition sibling_at :: "int list \<Rightarrow> int \<Rightarrow> int" where
  "sibling_at layer idx =
     (if idx XOR 1 < int (length layer) then layer ! nat (idx XOR 1) else layer ! nat idx)"

text \<open>
  The hash of two operands as the circuit obtains it from its gadget: the first output
  of the gadget on the two inputs, \<open>poseidon_circuit_hash([left, right])[0]\<close>.
\<close>

definition gadget_hash :: "('v list \<Rightarrow> 'v list) \<Rightarrow> 'v \<Rightarrow> 'v \<Rightarrow> error + 'v" where
  "gadget_hash gadget left right = py_index (gadget [left, right]) 0"

text \<open>
  The walk in the words of the specification: \<open>needle := leaf\<close>; for each level in
  order, the operands are \<open>(needle, sibling)\<close> when the position is 0 and
  \<open>(sibling, needle)\<close> otherwise, and the needle becomes their hash; the final needle
  is returned. A failure of the hash ends the walk.
\<close>

fun spec_walk :: "('v \<Rightarrow> 'v \<Rightarrow> error + 'v) \<Rightarrow> 'v \<Rightarrow> 'v list \<Rightarrow> int list \<Rightarrow> error + 'v" where
  "spec_walk hash needle (s # ss) (p # ps) =
     (case (if p = 0 then hash needle s else hash s needle) of
        Inl e \<Rightarrow> Inl e
      | Inr parent \<Rightarrow> spec_walk hash parent ss ps)"
| "spec_walk hash needle ss ps = Inr needle"

text \<open>
  A small stand-in for the digest, to evaluate the functions on concrete inputs: one
  byte, a polynomial in the bytes fed (so the order of the operands matters).
\<close>

definition toy_digest :: "8 word list \<Rightarrow> 8 word list" where
  "toy_digest bs = [foldl (\<lambda>acc b. 3 * acc + b) 0 bs]"

text \<open>The tree's own hash offered through the interface of the gadget.\<close>

definition tree_gadget :: "(8 word list \<Rightarrow> 8 word list) \<Rightarrow> int list \<Rightarrow> int list" where
  "tree_gadget sha xs =
     (case xs of
        [l, r] \<Rightarrow> (case merkle_hash2 sha l r of Inl e \<Rightarrow> [] | Inr y \<Rightarrow> [y])
      | _ \<Rightarrow> [])"

text \<open>The tree of the leaves 1, 2, 3 under \<open>toy_digest\<close>.\<close>

definition toy_tree :: MerkleTree where
  "toy_tree = \<lparr>leaves = [1, 2, 3], levels = [[1, 2, 3], [131, 134], [137]]\<rparr>"

text \<open>
  The cursor of \<open>opening\<close> in the words of the specification: it starts at the index
  and is halved (integer division) from each level to the next.
\<close>

fun cursor_at :: "int \<Rightarrow> nat \<Rightarrow> int" where
  "cursor_at index 0 = index"
| "cursor_at index (Suc h) = cursor_at index h div 2"

section \<open>Hashing and construction: basic facts\<close>

lemma FIELD_MODULUS_pos: "0 < FIELD_MODULUS"
  by (simp add: FIELD_MODULUS_def)

lemma FIELD_MODULUS_fits: "FIELD_MODULUS < 2 ^ 256"
  by (simp add: FIELD_MODULUS_def)

lemma in_field_field: "in_field (field x)"
  using FIELD_MODULUS_pos by (simp add: in_field_def field_def)

lemma in_field_hash2: "in_field (hash2 sha l r)"
  using FIELD_MODULUS_pos by (simp add: in_field_def hash2_def)

lemma to_bytes32_in_field: "in_field v \<Longrightarrow> to_bytes32 v = Inr (bytes32 v)"
  using FIELD_MODULUS_fits by (simp add: in_field_def to_bytes32_def bytes32_def)

lemma merkle_hash2_in_field:
  "in_field l \<Longrightarrow> in_field r \<Longrightarrow> merkle_hash2 sha l r = Inr (hash2 sha l r)"
  by (simp add: merkle_hash2_def sha256_to_field_def to_bytes32_in_field hash2_def)

lemma merkle_hash2_result: "merkle_hash2 sha l r = Inr y \<Longrightarrow> in_field y"
  using FIELD_MODULUS_pos
  by (auto simp: merkle_hash2_def sha256_to_field_def in_field_def split: sum.splits)

lemma build_row_pure:
  "\<forall>x\<in>set level. in_field x \<Longrightarrow> even i \<Longrightarrow>
   build_row sha level i acc =
     Inr (acc @ map (parent_of sha level) [i div 2..<(length level + 1) div 2])"
proof (induction sha level i acc rule: build_row.induct)
  case (1 sha level i next_level)
  show ?case
  proof (cases "i < length level")
    case True
    from \<open>even i\<close> have i2: "2 * (i div 2) = i" by simp
    have fl: "in_field (level ! i)" using True "1.prems"(1) by simp
    have fr: "in_field (if i + 1 < length level then level ! (i + 1) else level ! i)"
      using True "1.prems"(1) by simp
    have p: "merkle_hash2 sha (level ! i)
               (if i + 1 < length level then level ! (i + 1) else level ! i)
             = Inr (parent_of sha level (i div 2))"
      unfolding parent_of_def i2 using merkle_hash2_in_field[OF fl fr] by simp
    have ev: "even (i + 2)" using \<open>even i\<close> by simp
    have lt: "i div 2 < (length level + 1) div 2" using True by arith
    have d: "(i + 2) div 2 = Suc (i div 2)" by simp
    have "build_row sha level i next_level =
            build_row sha level (i + 2) (next_level @ [parent_of sha level (i div 2)])"
      using True p by (subst build_row.simps) (simp add: Let_def)
    also have "\<dots> = Inr ((next_level @ [parent_of sha level (i div 2)]) @
        map (parent_of sha level) [(i + 2) div 2..<(length level + 1) div 2])"
      using "1.IH"[OF True refl refl p "1.prems"(1) ev] .
    also have "\<dots> = Inr (next_level @
        map (parent_of sha level) [i div 2..<(length level + 1) div 2])"
      unfolding d using upt_conv_Cons[OF lt] by simp
    finally show ?thesis .
  next
    case False
    with \<open>even i\<close> have "(length level + 1) div 2 \<le> i div 2" by arith
    with False show ?thesis by simp
  qed
qed

lemma build_row_next_row:
  "\<forall>x\<in>set level. in_field x \<Longrightarrow> build_row sha level 0 [] = Inr (next_row sha level)"
  using build_row_pure[of level 0 sha "[]"] by (simp add: next_row_def)

lemma next_row_in_field: "\<forall>x\<in>set (next_row sha level). in_field x"
  by (auto simp: next_row_def parent_of_def in_field_hash2)

lemma length_next_row: "length (next_row sha level) = (length level + 1) div 2"
  by (simp add: next_row_def)

lemma build_loop_chain:
  "\<forall>x\<in>set level. in_field x \<Longrightarrow> level \<noteq> [] \<Longrightarrow>
   \<exists>ls. build_loop sha (pre @ [level]) level = Inr (pre @ ls) \<and> levels_chain sha ls \<and>
        hd ls = level \<and> (\<forall>l\<in>set ls. \<forall>x\<in>set l. in_field x)"
proof (induction "length level" arbitrary: level pre rule: less_induct)
  case less
  show ?case
  proof (cases "1 < length level")
    case True
    let ?n = "next_row sha level"
    have row: "build_row sha level 0 [] = Inr ?n"
      using build_row_next_row[OF less.prems(1)] .
    have shorter: "length ?n < length level" using True by (simp add: length_next_row)
    have ne: "?n \<noteq> []" using less.prems(2) by (auto simp: next_row_def)
    from less.hyps[OF shorter next_row_in_field ne, of "pre @ [level]"]
    obtain ls where ls: "build_loop sha ((pre @ [level]) @ [?n]) ?n = Inr ((pre @ [level]) @ ls)"
      and ch: "levels_chain sha ls" and h: "hd ls = ?n"
      and f: "\<forall>l\<in>set ls. \<forall>x\<in>set l. in_field x"
      by blast
    from ch h obtain rest where lsr: "ls = ?n # rest" by (cases ls) auto
    have "build_loop sha (pre @ [level]) level = Inr (pre @ (level # ls))"
      using True row ls by (subst build_loop.simps) simp
    moreover have "levels_chain sha (level # ls)" using True ch lsr by simp
    moreover have "\<forall>l\<in>set (level # ls). \<forall>x\<in>set l. in_field x" using f less.prems(1) by simp
    ultimately show ?thesis by (intro exI[of _ "level # ls"]) simp
  next
    case False
    with less.prems(2) have one: "length level = 1" by (cases level) auto
    then have "build_loop sha (pre @ [level]) level = Inr (pre @ [level])"
      by (subst build_loop.simps) simp
    with one less.prems(1) show ?thesis by (intro exI[of _ "[level]"]) simp
  qed
qed

lemma MerkleTree_init_chain:
  assumes "lvs \<noteq> []"
  shows "\<exists>t. MerkleTree_init sha lvs = Inr t \<and> leaves t = map field lvs \<and>
             levels_chain sha (levels t) \<and> hd (levels t) = map field lvs \<and>
             (\<forall>l\<in>set (levels t). \<forall>x\<in>set l. in_field x)"
proof -
  have f: "\<forall>x\<in>set (map field lvs). in_field x" by (simp add: in_field_field)
  have ne: "map field lvs \<noteq> []" using assms by simp
  from build_loop_chain[OF f ne, of sha "[]"] obtain ls where
    "build_loop sha [map field lvs] (map field lvs) = Inr ls" "levels_chain sha ls"
    "hd ls = map field lvs" "\<forall>l\<in>set ls. \<forall>x\<in>set l. in_field x"
    by auto
  then show ?thesis using assms
    by (simp add: MerkleTree_init_def build_tree_def)
qed

lemma MerkleTree_init_empty: "MerkleTree_init sha [] = Inl InvalidInput"
  by (simp add: MerkleTree_init_def)

lemma MerkleTree_init_built:
  assumes "MerkleTree_init sha lvs = Inr t"
  shows "lvs \<noteq> []" "leaves t = map field lvs" "levels_chain sha (levels t)"
    "hd (levels t) = map field lvs" "\<forall>l\<in>set (levels t). \<forall>x\<in>set l. in_field x"
proof -
  show ne: "lvs \<noteq> []" using assms MerkleTree_init_empty[of sha] by auto
  from MerkleTree_init_chain[OF ne, of sha] assms
  show "leaves t = map field lvs" "levels_chain sha (levels t)"
    "hd (levels t) = map field lvs" "\<forall>l\<in>set (levels t). \<forall>x\<in>set l. in_field x"
    by auto
qed

section \<open>Levels, root and the loop of opening\<close>

lemma py_index_nat: "i < length xs \<Longrightarrow> py_index xs (int i) = Inr (xs ! i)"
  by (simp add: py_index_def)

lemma py_index_in_range: "0 \<le> i \<Longrightarrow> i < int (length xs) \<Longrightarrow> py_index xs i = Inr (xs ! nat i)"
  by (simp add: py_index_def)

lemma py_index_last: "xs \<noteq> [] \<Longrightarrow> py_index xs (- 1) = Inr (last xs)"
  by (cases xs rule: rev_cases) (auto simp: py_index_def nth_append)

lemma py_index_member: "py_index xs i = Inr x \<Longrightarrow> x \<in> set xs"
  by (auto simp: py_index_def split: if_splits)

lemma xor_one_int: "(idx::int) XOR 1 = (if even idx then idx + 1 else idx - 1)"
  by (simp add: xor_one_eq)

lemma levels_chain_nonempty: "levels_chain sha ls \<Longrightarrow> ls \<noteq> []"
  by (cases ls) auto

lemma levels_chain_last: "levels_chain sha ls \<Longrightarrow> length (last ls) = 1"
  by (induction sha ls rule: levels_chain.induct) auto

lemma levels_chain_step:
  "levels_chain sha ls \<Longrightarrow> Suc i < length ls \<Longrightarrow>
   1 < length (ls ! i) \<and> ls ! Suc i = next_row sha (ls ! i)"
proof (induction sha ls arbitrary: i rule: levels_chain.induct)
  case (3 sha l l' rest)
  then show ?case by (cases i) auto
qed auto

lemma root_of_chain:
  assumes "levels_chain sha (levels t)"
  shows "root t = Inr (last (levels t) ! 0)"
proof -
  have "py_index (levels t) (- 1) = Inr (last (levels t))"
    using levels_chain_nonempty[OF assms] by (rule py_index_last)
  moreover have "py_index (last (levels t)) 0 = Inr (last (levels t) ! 0)"
    using levels_chain_last[OF assms] by (simp add: py_index_def)
  ultimately show ?thesis by (simp add: root_def)
qed

lemma fetch_sibling:
  assumes "0 \<le> idx" "idx < int (length layer)"
  shows "(if idx XOR 1 \<ge> int (length layer) then py_index layer idx
          else py_index layer (idx XOR 1)) = Inr (sibling_at layer idx)"
proof -
  have "0 \<le> idx XOR 1" using assms(1) by simp
  then show ?thesis using assms
    by (simp add: sibling_at_def py_index_in_range)
qed

lemma opening_loop_acc:
  "opening_loop ls idx S P =
     (case opening_loop ls idx [] [] of
        Inl e \<Rightarrow> Inl e
      | Inr (s, p) \<Rightarrow> Inr (S @ s, P @ p))"
proof (induction ls arbitrary: idx S P)
  case Nil
  show ?case by simp
next
  case (Cons layer upper)
  let ?fetch = "if idx XOR 1 \<ge> int (length layer) then py_index layer idx
                else py_index layer (idx XOR 1)"
  show ?case
  proof (cases ?fetch)
    case (Inl e)
    then show ?thesis by (simp add: Let_def)
  next
    case (Inr sib)
    have l: "opening_loop (layer # upper) idx S P =
             opening_loop upper (idx div 2) (S @ [sib]) (P @ [idx mod 2])"
      using Inr by (simp add: Let_def)
    have r: "opening_loop (layer # upper) idx [] [] =
             opening_loop upper (idx div 2) [sib] [idx mod 2]"
      using Inr by (simp add: Let_def)
    show ?thesis
      unfolding l r
      by (subst Cons.IH[of "idx div 2" "S @ [sib]" "P @ [idx mod 2]"],
          subst Cons.IH[of "idx div 2" "[sib]" "[idx mod 2]"])
         (simp split: sum.splits prod.splits)
  qed
qed

lemma opening_loop_step:
  assumes "0 \<le> idx" "idx < int (length layer)"
  shows "opening_loop (layer # upper) idx [] [] =
     (case opening_loop upper (idx div 2) [] [] of
        Inl e \<Rightarrow> Inl e
      | Inr (s, p) \<Rightarrow> Inr (sibling_at layer idx # s, idx mod 2 # p))"
proof -
  have "opening_loop (layer # upper) idx [] [] =
        opening_loop upper (idx div 2) [sibling_at layer idx] [idx mod 2]"
    using fetch_sibling[OF assms] by (simp add: Let_def)
  also have "\<dots> = (case opening_loop upper (idx div 2) [] [] of
        Inl e \<Rightarrow> Inl e
      | Inr (s, p) \<Rightarrow> Inr (sibling_at layer idx # s, idx mod 2 # p))"
    by (subst opening_loop_acc) (simp split: sum.splits prod.splits)
  finally show ?thesis .
qed

lemma cursor_stays_in_range:
  assumes "0 \<le> idx" "idx < int (length l)"
  shows "0 \<le> idx div 2 \<and> idx div 2 < int (length (next_row sha l))"
  using assms by (simp add: length_next_row; arith)

lemma opening_of_chain:
  "levels_chain sha ls \<Longrightarrow> 0 \<le> idx \<Longrightarrow> idx < int (length (hd ls)) \<Longrightarrow>
   \<exists>s p. opening_loop (butlast ls) idx [] [] = Inr (s, p) \<and>
         length s = length ls - 1 \<and> length p = length ls - 1 \<and>
         (\<forall>h < length ls - 1.
            0 \<le> idx div 2 ^ h \<and> idx div 2 ^ h < int (length (ls ! h)) \<and>
            p ! h = (idx div 2 ^ h) mod 2 \<and>
            s ! h = sibling_at (ls ! h) (idx div 2 ^ h))"
proof (induction sha ls arbitrary: idx rule: levels_chain.induct)
  case (1 sha)
  then show ?case by simp
next
  case (2 sha l)
  then show ?case by simp
next
  case (3 sha l l' rest)
  from "3.prems"(1) have c: "l' = next_row sha l \<and> levels_chain sha (l' # rest)"
    unfolding levels_chain.simps by (rule conjunct2)
  from c have l': "l' = next_row sha l" by (rule conjunct1)
  from c have ch: "levels_chain sha (l' # rest)" by (rule conjunct2)
  from "3.prems"(2) have lo: "0 \<le> idx" .
  from "3.prems"(3) have hi: "idx < int (length l)" by simp
  from cursor_stays_in_range[OF lo hi, of sha] l'
  have lo': "0 \<le> idx div 2" and hi': "idx div 2 < int (length (hd (l' # rest)))" by simp_all
  from "3.IH"[OF ch lo' hi'] obtain s p where
    o: "opening_loop (butlast (l' # rest)) (idx div 2) [] [] = Inr (s, p)"
    and ls: "length s = length (l' # rest) - 1" and lp: "length p = length (l' # rest) - 1"
    and nth: "\<forall>h < length (l' # rest) - 1.
            0 \<le> idx div 2 div 2 ^ h \<and> idx div 2 div 2 ^ h < int (length ((l' # rest) ! h)) \<and>
            p ! h = (idx div 2 div 2 ^ h) mod 2 \<and>
            s ! h = sibling_at ((l' # rest) ! h) (idx div 2 div 2 ^ h)"
    by blast
  have dd: "idx div 2 div 2 ^ h = idx div 2 ^ Suc h" for h
    by (simp add: zdiv_zmult2_eq)
  have o': "opening_loop (butlast (l # l' # rest)) idx [] [] =
            Inr (sibling_at l idx # s, idx mod 2 # p)"
    using opening_loop_step[OF lo hi, of "butlast (l' # rest)"] o by simp
  have "\<forall>h < length (l # l' # rest) - 1.
            0 \<le> idx div 2 ^ h \<and> idx div 2 ^ h < int (length ((l # l' # rest) ! h)) \<and>
            (idx mod 2 # p) ! h = (idx div 2 ^ h) mod 2 \<and>
            (sibling_at l idx # s) ! h = sibling_at ((l # l' # rest) ! h) (idx div 2 ^ h)"
  proof (intro allI impI)
    fix h assume h: "h < length (l # l' # rest) - 1"
    show "0 \<le> idx div 2 ^ h \<and> idx div 2 ^ h < int (length ((l # l' # rest) ! h)) \<and>
            (idx mod 2 # p) ! h = (idx div 2 ^ h) mod 2 \<and>
            (sibling_at l idx # s) ! h = sibling_at ((l # l' # rest) ! h) (idx div 2 ^ h)"
    proof (cases h)
      case 0
      then show ?thesis using lo hi by simp
    next
      case (Suc k)
      with h have "k < length (l' # rest) - 1" by simp
      with nth have "0 \<le> idx div 2 div 2 ^ k \<and> idx div 2 div 2 ^ k < int (length ((l' # rest) ! k)) \<and>
            p ! k = (idx div 2 div 2 ^ k) mod 2 \<and>
            s ! k = sibling_at ((l' # rest) ! k) (idx div 2 div 2 ^ k)" by blast
      then show ?thesis unfolding dd Suc by simp
    qed
  qed
  with o' ls lp show ?case
    by (intro exI[of _ "sibling_at l idx # s"] exI[of _ "idx mod 2 # p"]) simp
qed

lemma toy_tree_built: "MerkleTree_init toy_digest [1, 2, 3] = Inr toy_tree"
  unfolding toy_tree_def by code_simp

lemma toy_tree_opening_2: "MerkleTree_opening toy_tree 2 = Inr ([3, 131], [0, 1])"
  unfolding toy_tree_def by code_simp

lemma toy_tree_root: "root toy_tree = Inr 137"
  unfolding toy_tree_def by code_simp

lemma opening_loop_siblings:
  "opening_loop ls idx S P = Inr (s, p) \<Longrightarrow> set s \<subseteq> set S \<union> (\<Union>l\<in>set ls. set l)"
proof (induction ls arbitrary: idx S P)
  case Nil
  then show ?case by simp
next
  case (Cons layer upper)
  let ?fetch = "if idx XOR 1 \<ge> int (length layer) then py_index layer idx
                else py_index layer (idx XOR 1)"
  from Cons.prems obtain sib where f: "?fetch = Inr sib"
    and r: "opening_loop upper (idx div 2) (S @ [sib]) (P @ [idx mod 2]) = Inr (s, p)"
    by (auto simp: Let_def split: sum.splits)
  from f have "sib \<in> set layer"
    by (auto dest: py_index_member split: if_splits)
  with Cons.IH[OF r] show ?case by auto
qed

lemma MerkleTree_opening_built:
  assumes "MerkleTree_init sha lvs = Inr t" "0 \<le> index" "index < int (length lvs)"
  shows "\<exists>s p. MerkleTree_opening t index = Inr (s, p) \<and>
         length s = height t \<and> length p = height t \<and>
         (\<forall>h < height t.
            0 \<le> index div 2 ^ h \<and> index div 2 ^ h < int (length (levels t ! h)) \<and>
            p ! h = (index div 2 ^ h) mod 2 \<and>
            s ! h = sibling_at (levels t ! h) (index div 2 ^ h))"
proof -
  note b = MerkleTree_init_built[OF assms(1)]
  have hi: "index < int (length (hd (levels t)))" using assms(3) b(4) by simp
  have "MerkleTree_opening t index = opening_loop (butlast (levels t)) index [] []"
    using assms(2,3) b(2) by (simp add: MerkleTree_opening_def butlast_conv_take)
  with opening_of_chain[OF b(3) assms(2) hi] show ?thesis
    by (simp add: height_def)
qed

section \<open>The recomputation walk\<close>

lemma check_positions_ok:
  "\<forall>p\<in>set ps. p = 0 \<or> p = 1 \<Longrightarrow> check_positions ps = Inr ()"
  by (induction ps) auto

lemma check_positions_bad:
  "\<exists>p\<in>set ps. p \<noteq> 0 \<and> p \<noteq> 1 \<Longrightarrow> check_positions ps = Inl InvalidPositionBit"
  by (induction ps) auto

lemma walk_up_drop:
  "length siblings = length positions \<Longrightarrow>
   walk_up gadget siblings positions h needle =
     spec_walk (gadget_hash gadget) needle (drop h siblings) (drop h positions)"
proof (induction gadget siblings positions h needle rule: walk_up.induct)
  case (1 gadget siblings positions h needle)
  show ?case
  proof (cases "h < length positions")
    case True
    let ?b = "positions ! h" and ?s = "siblings ! h"
    let ?left = "if ?b = 0 then needle else ?s" and ?right = "if ?b = 0 then ?s else needle"
    have pb: "py_index positions (int h) = Inr ?b" using True by (rule py_index_nat)
    have ps: "py_index siblings (int h) = Inr ?s"
      using True "1.prems" by (simp add: py_index_nat)
    have dp: "drop h positions = ?b # drop (Suc h) positions"
      using True by (simp add: Cons_nth_drop_Suc)
    have ds: "drop h siblings = ?s # drop (Suc h) siblings"
      using True "1.prems" by (simp add: Cons_nth_drop_Suc)
    have hs: "(if ?b = 0 then gadget_hash gadget needle ?s else gadget_hash gadget ?s needle)
              = py_index (gadget [?left, ?right]) 0"
      by (simp add: gadget_hash_def)
    show ?thesis
    proof (cases "py_index (gadget [?left, ?right]) 0")
      case (Inl e)
      have "walk_up gadget siblings positions h needle = Inl e"
        using True pb ps Inl by (subst walk_up.simps) (simp add: Let_def)
      moreover have "spec_walk (gadget_hash gadget) needle (drop h siblings) (drop h positions)
          = Inl e"
        unfolding dp ds using hs Inl by simp
      ultimately show ?thesis by simp
    next
      case (Inr parent)
      have "walk_up gadget siblings positions h needle =
            walk_up gadget siblings positions (h + 1) parent"
        using True pb ps Inr by (subst walk_up.simps) (simp add: Let_def)
      also have "\<dots> = spec_walk (gadget_hash gadget) parent
            (drop (h + 1) siblings) (drop (h + 1) positions)"
        using "1.IH"[OF True pb ps refl refl Inr "1.prems"] .
      also have "\<dots> = spec_walk (gadget_hash gadget) needle (drop h siblings) (drop h positions)"
        unfolding dp ds using hs Inr by simp
      finally show ?thesis .
    qed
  next
    case False
    then have "walk_up gadget siblings positions h needle = Inr needle"
      by (subst walk_up.simps) simp
    with False show ?thesis by simp
  qed
qed

lemma recompute_valid:
  assumes "length siblings = length positions" "\<forall>p\<in>set positions. p = 0 \<or> p = 1"
  shows "recompute gadget leaf siblings positions =
           spec_walk (gadget_hash gadget) leaf siblings positions"
  using assms walk_up_drop[OF assms(1), of gadget 0 leaf]
  by (simp add: recompute_def check_positions_ok)

lemma sibling_at_in_field:
  assumes "\<forall>x\<in>set l. in_field x" "0 \<le> idx" "idx < int (length l)"
  shows "in_field (sibling_at l idx)"
proof -
  have "0 \<le> idx XOR 1" using assms(2) by simp
  with assms show ?thesis by (simp add: sibling_at_def)
qed

lemma pair_hash_is_parent:
  assumes fld: "\<forall>x\<in>set l. in_field x" and lo: "0 \<le> idx" and hi: "idx < int (length l)"
  shows "(if idx mod 2 = 0 then merkle_hash2 sha (l ! nat idx) (sibling_at l idx)
          else merkle_hash2 sha (sibling_at l idx) (l ! nat idx))
         = Inr (next_row sha l ! nat (idx div 2))"
proof -
  define n where "n = nat idx"
  define j where "j = n div 2"
  have idx: "idx = int n" using lo by (simp add: n_def)
  have nl: "n < length l" using hi idx by simp
  have jn: "nat (idx div 2) = j" unfolding j_def idx by (simp add: nat_div_distrib)
  have jl: "j < (length l + 1) div 2" using nl unfolding j_def by arith
  have nx: "next_row sha l ! j = parent_of sha l j"
    unfolding next_row_def using jl by simp
  have fn: "in_field (l ! n)" using fld nl by simp
  have fs: "in_field (sibling_at l idx)" using sibling_at_in_field[OF fld lo hi] .
  show ?thesis
  proof (cases "even n")
    case True
    then have n2: "2 * j = n" unfolding j_def by simp
    have "idx XOR 1 = int (n + 1)" using True by (simp add: xor_one_int idx)
    then have sib: "sibling_at l idx = (if n + 1 < length l then l ! (n + 1) else l ! n)"
      unfolding sibling_at_def using idx by (simp del: of_nat_add of_nat_Suc)
    have "parent_of sha l j = hash2 sha (l ! n) (sibling_at l idx)"
      unfolding parent_of_def n2 sib ..
    moreover have "idx mod 2 = 0" using True unfolding idx by presburger
    ultimately show ?thesis
      using merkle_hash2_in_field[OF fn fs, of sha] nx unfolding jn
      by (simp add: n_def[symmetric])
  next
    case False
    then have n2: "2 * j + 1 = n" unfolding j_def by presburger
    have pos: "0 < n" using False by (cases n) auto
    have "idx XOR 1 = int (n - 1)" using False pos by (simp add: xor_one_int idx of_nat_diff)
    then have sib: "sibling_at l idx = l ! (n - 1)"
      unfolding sibling_at_def using nl by simp
    have n1: "n - 1 = 2 * j" using n2 by simp
    have "parent_of sha l j = hash2 sha (sibling_at l idx) (l ! n)"
      unfolding parent_of_def sib n1 using nl n2 by simp
    moreover have "idx mod 2 \<noteq> 0" using False unfolding idx by presburger
    ultimately show ?thesis
      using merkle_hash2_in_field[OF fs fn, of sha] nx unfolding jn
      by (simp add: n_def[symmetric])
  qed
qed

section \<open>Construction\<close>

text \<open>
  C7. Construction fails with \<open>InvalidInput\<close> exactly when the supplied leaf
  sequence is empty, and for every non-empty leaf sequence it succeeds: it returns a
  tree, whatever the leaves (they are reduced before they are hashed) and whatever the
  digest function.
\<close>

theorem construction_fails_iff_empty:
  "(MerkleTree_init sha lvs = Inl InvalidInput \<longleftrightarrow> lvs = []) \<and>
   (lvs \<noteq> [] \<longrightarrow> (\<exists>t. MerkleTree_init sha lvs = Inr t))"
proof (cases "lvs = []")
  case True
  then show ?thesis by (simp add: MerkleTree_init_empty)
next
  case False
  from MerkleTree_init_chain[OF False, of sha] obtain t where
    "MerkleTree_init sha lvs = Inr t" by blast
  with False show ?thesis by simp
qed

theorem construction_fails_iff_empty_witness:
  "[1, 2, 3] \<noteq> ([] :: int list) \<and> (\<exists>t. MerkleTree_init toy_digest [1, 2, 3] = Inr t) \<and>
   MerkleTree_init toy_digest [] = Inl InvalidInput"
  using construction_fails_iff_empty[of toy_digest "[1, 2, 3]"]
    construction_fails_iff_empty[of toy_digest "[]"]
  by simp

section \<open>The levels of a built tree\<close>

text \<open>
  C2. In a built tree, level 0 is the leaf sequence reduced into the field, each level
  above has length \<open>ceil(n / 2)\<close> of the level below (written \<open>(n + 1) div 2\<close>), the
  last level has exactly one element, and node \<open>j\<close> of a level is \<open>merkle_hash2\<close> of
  nodes \<open>2j\<close> and \<open>2j+1\<close> of the level below, where a missing node \<open>2j+1\<close> is
  replaced by node \<open>2j\<close>: the lone trailing node is hashed with itself.
\<close>

theorem build_level_invariant:
  assumes "MerkleTree_init sha lvs = Inr t"
  shows "levels t \<noteq> [] \<and> levels t ! 0 = map field lvs \<and> length (levels t ! 0) \<ge> 1 \<and>
    length (last (levels t)) = 1 \<and>
    (\<forall>i. Suc i < length (levels t) \<longrightarrow>
       length (levels t ! Suc i) = (length (levels t ! i) + 1) div 2 \<and>
       (\<forall>j < length (levels t ! Suc i).
          2 * j < length (levels t ! i) \<and>
          merkle_hash2 sha (levels t ! i ! (2 * j))
            (if 2 * j + 1 < length (levels t ! i) then levels t ! i ! (2 * j + 1)
             else levels t ! i ! (2 * j))
          = Inr (levels t ! Suc i ! j)))"
proof -
  note b = MerkleTree_init_built[OF assms]
  have ne: "levels t \<noteq> []" using b(3) by (rule levels_chain_nonempty)
  have l0: "levels t ! 0 = map field lvs" using ne b(4) by (simp add: hd_conv_nth)
  have len0: "length (levels t ! 0) \<ge> 1" using l0 b(1) by (cases lvs) auto
  have top: "length (last (levels t)) = 1" using b(3) by (rule levels_chain_last)
  have step: "length (levels t ! Suc i) = (length (levels t ! i) + 1) div 2 \<and>
       (\<forall>j < length (levels t ! Suc i).
          2 * j < length (levels t ! i) \<and>
          merkle_hash2 sha (levels t ! i ! (2 * j))
            (if 2 * j + 1 < length (levels t ! i) then levels t ! i ! (2 * j + 1)
             else levels t ! i ! (2 * j))
          = Inr (levels t ! Suc i ! j))" if i: "Suc i < length (levels t)" for i
  proof -
    let ?l = "levels t ! i"
    from levels_chain_step[OF b(3) i] have nx: "levels t ! Suc i = next_row sha ?l" by simp
    have mem: "?l \<in> set (levels t)" using i by simp
    have fld: "\<forall>x\<in>set ?l. in_field x" using b(5) mem by blast
    have len: "length (levels t ! Suc i) = (length ?l + 1) div 2"
      unfolding nx by (rule length_next_row)
    have "2 * j < length ?l \<and>
          merkle_hash2 sha (?l ! (2 * j))
            (if 2 * j + 1 < length ?l then ?l ! (2 * j + 1) else ?l ! (2 * j))
          = Inr (levels t ! Suc i ! j)" if j: "j < length (levels t ! Suc i)" for j
    proof -
      from j len have j2: "2 * j < length ?l" by arith
      have fl: "in_field (?l ! (2 * j))" using fld j2 by simp
      have fr: "in_field (if 2 * j + 1 < length ?l then ?l ! (2 * j + 1) else ?l ! (2 * j))"
        using fld j2 by simp
      have "levels t ! Suc i ! j = parent_of sha ?l j"
        using j len unfolding nx next_row_def by simp
      with merkle_hash2_in_field[OF fl fr] j2 show ?thesis
        by (simp add: parent_of_def)
    qed
    with len show ?thesis by blast
  qed
  from ne l0 len0 top step show ?thesis by blast
qed

theorem build_level_invariant_witness:
  "MerkleTree_init toy_digest [1, 2, 3] = Inr toy_tree \<and>
   levels toy_tree ! 0 = map field [1, 2, 3] \<and>
   length (last (levels toy_tree)) = 1 \<and>
   length (levels toy_tree ! Suc 0) = (length (levels toy_tree ! 0) + 1) div 2 \<and>
   merkle_hash2 toy_digest (levels toy_tree ! 0 ! (2 * 1)) (levels toy_tree ! 0 ! (2 * 1))
     = Inr (levels toy_tree ! Suc 0 ! 1)"
proof -
  have i: "Suc 0 < length (levels toy_tree)" by (simp add: toy_tree_def)
  have j: "1 < length (levels toy_tree ! Suc 0)" by (simp add: toy_tree_def)
  have n: "\<not> 2 * 1 + 1 < length (levels toy_tree ! 0)" by (simp add: toy_tree_def)
  note inv = build_level_invariant[OF toy_tree_built]
  from inv have a: "levels toy_tree ! 0 = map field [1, 2, 3]" by blast
  from inv have b: "length (last (levels toy_tree)) = 1" by blast
  from inv i have c: "length (levels toy_tree ! Suc 0) = (length (levels toy_tree ! 0) + 1) div 2"
    by blast
  from inv i j have "merkle_hash2 toy_digest (levels toy_tree ! 0 ! (2 * 1))
            (if 2 * 1 + 1 < length (levels toy_tree ! 0) then levels toy_tree ! 0 ! (2 * 1 + 1)
             else levels toy_tree ! 0 ! (2 * 1))
          = Inr (levels toy_tree ! Suc 0 ! 1)" by blast
  with n have d: "merkle_hash2 toy_digest (levels toy_tree ! 0 ! (2 * 1))
      (levels toy_tree ! 0 ! (2 * 1)) = Inr (levels toy_tree ! Suc 0 ! 1)"
    by (simp only: if_False)
  from toy_tree_built a b c d show ?thesis by blast
qed

section \<open>Singleton trees, field elements and the bounds of opening\<close>

text \<open>
  C5. A tree built from exactly one leaf has height 0 (its only level is the leaf
  level), \<open>opening(0)\<close> returns two empty sequences, and \<open>root()\<close> is the leaf reduced
  into the field.
\<close>

theorem singleton_tree:
  "\<exists>t. MerkleTree_init sha [x] = Inr t \<and> levels t = [[field x]] \<and> height t = 0 \<and>
       MerkleTree_opening t 0 = Inr ([], []) \<and> root t = Inr (field x)"
proof -
  let ?t = "\<lparr>leaves = [field x], levels = [[field x]]\<rparr>"
  have loop: "build_loop sha [[field x]] [field x] = Inr [[field x]]"
    by (subst build_loop.simps) simp
  have "MerkleTree_init sha [x] = Inr ?t"
    by (simp add: MerkleTree_init_def build_tree_def loop Let_def)
  moreover have "height ?t = 0" by (simp add: height_def)
  moreover have "MerkleTree_opening ?t 0 = Inr ([], [])"
    by (simp add: MerkleTree_opening_def)
  moreover have "root ?t = Inr (field x)"
    by (simp add: root_def py_index_def)
  ultimately show ?thesis by simp
qed

theorem singleton_tree_witness:
  "\<exists>t. MerkleTree_init toy_digest [FIELD_MODULUS + 5] = Inr t \<and> height t = 0 \<and>
       MerkleTree_opening t 0 = Inr ([], []) \<and> root t = Inr 5"
proof -
  have "field (FIELD_MODULUS + 5) = 5" by (simp add: field_def FIELD_MODULUS_def)
  with singleton_tree[of toy_digest "FIELD_MODULUS + 5"] show ?thesis by auto
qed

text \<open>
  C10. Every element of every level of a built tree is a field element, at least 0 and
  below \<open>FIELD_MODULUS\<close>: the leaves are reduced at construction and every value
  \<open>merkle_hash2\<close> returns is reduced. Hence \<open>root()\<close> returns a field element, and so
  is every sibling \<open>opening\<close> returns.
\<close>

theorem built_values_in_field:
  assumes "MerkleTree_init sha lvs = Inr t"
  shows "(\<forall>x\<in>set (leaves t). 0 \<le> x \<and> x < FIELD_MODULUS) \<and>
    (\<forall>l\<in>set (levels t). \<forall>x\<in>set l. 0 \<le> x \<and> x < FIELD_MODULUS) \<and>
    (\<forall>a b y. merkle_hash2 sha a b = Inr y \<longrightarrow> 0 \<le> y \<and> y < FIELD_MODULUS) \<and>
    (\<exists>r. root t = Inr r \<and> 0 \<le> r \<and> r < FIELD_MODULUS) \<and>
    (\<forall>index s p. MerkleTree_opening t index = Inr (s, p) \<longrightarrow>
       (\<forall>x\<in>set s. 0 \<le> x \<and> x < FIELD_MODULUS))"
proof -
  note b = MerkleTree_init_built[OF assms]
  have lv: "\<forall>l\<in>set (levels t). \<forall>x\<in>set l. 0 \<le> x \<and> x < FIELD_MODULUS"
    using b(5) by (simp add: in_field_def)
  have le: "\<forall>x\<in>set (leaves t). 0 \<le> x \<and> x < FIELD_MODULUS"
    using in_field_field by (auto simp: b(2) in_field_def)
  have h: "\<forall>a b y. merkle_hash2 sha a b = Inr y \<longrightarrow> 0 \<le> y \<and> y < FIELD_MODULUS"
    using merkle_hash2_result by (auto simp: in_field_def)
  have ne: "levels t \<noteq> []" using b(3) by (rule levels_chain_nonempty)
  have "last (levels t) ! 0 \<in> set (last (levels t))"
    using levels_chain_last[OF b(3)] by simp
  moreover have "last (levels t) \<in> set (levels t)" using ne by simp
  ultimately have "0 \<le> last (levels t) ! 0 \<and> last (levels t) ! 0 < FIELD_MODULUS"
    using lv by blast
  with root_of_chain[OF b(3)]
  have r: "\<exists>r. root t = Inr r \<and> 0 \<le> r \<and> r < FIELD_MODULUS" by simp
  have o: "\<forall>x\<in>set s. 0 \<le> x \<and> x < FIELD_MODULUS"
    if "MerkleTree_opening t index = Inr (s, p)" for index s p
  proof -
    from that have "opening_loop (take (length (levels t) - 1) (levels t)) index [] []
        = Inr (s, p)"
      by (simp add: MerkleTree_opening_def split: if_splits)
    from opening_loop_siblings[OF this]
    have "set s \<subseteq> (\<Union>l\<in>set (take (length (levels t) - 1) (levels t)). set l)" by simp
    also have "\<dots> \<subseteq> (\<Union>l\<in>set (levels t). set l)"
      using set_take_subset[of "length (levels t) - 1" "levels t"] by blast
    finally show ?thesis using lv by blast
  qed
  from le lv h r o show ?thesis by blast
qed

theorem built_values_in_field_witness:
  "MerkleTree_init toy_digest [1, 2, 3] = Inr toy_tree \<and>
   0 \<le> levels toy_tree ! 1 ! 0 \<and> levels toy_tree ! 1 ! 0 < FIELD_MODULUS \<and>
   (\<exists>r. root toy_tree = Inr r \<and> 0 \<le> r \<and> r < FIELD_MODULUS) \<and>
   MerkleTree_opening toy_tree 2 = Inr ([3, 131], [0, 1]) \<and>
   0 \<le> [3, 131 :: int] ! 1 \<and> [3, 131 :: int] ! 1 < FIELD_MODULUS"
proof -
  note f = built_values_in_field[OF toy_tree_built]
  have m: "levels toy_tree ! 1 \<in> set (levels toy_tree)"
    "levels toy_tree ! 1 ! 0 \<in> set (levels toy_tree ! 1)"
    by (simp_all add: toy_tree_def)
  from f have "\<forall>l\<in>set (levels toy_tree). \<forall>x\<in>set l. 0 \<le> x \<and> x < FIELD_MODULUS"
    by blast
  with m have a: "0 \<le> levels toy_tree ! 1 ! 0 \<and> levels toy_tree ! 1 ! 0 < FIELD_MODULUS"
    by blast
  from f have b: "\<exists>r. root toy_tree = Inr r \<and> 0 \<le> r \<and> r < FIELD_MODULUS" by blast
  from f toy_tree_opening_2 have "\<forall>x\<in>set [3, 131]. 0 \<le> x \<and> x < FIELD_MODULUS"
    by blast
  then have c: "0 \<le> [3, 131 :: int] ! 1 \<and> [3, 131 :: int] ! 1 < FIELD_MODULUS"
    by simp
  from toy_tree_built a b toy_tree_opening_2 c show ?thesis by blast
qed

text \<open>
  C8. For every built tree, \<open>opening(index)\<close> fails with \<open>IndexOutOfRange\<close> exactly
  when \<open>index < 0\<close> or \<open>index \<ge> leafCount\<close>, whatever the size of the tree, and for
  every index from 0 up to \<open>leafCount - 1\<close> it returns an opening.
\<close>

theorem opening_bounds:
  assumes "MerkleTree_init sha lvs = Inr t"
  shows "(MerkleTree_opening t index = Inl IndexOutOfRange \<longleftrightarrow>
            index < 0 \<or> index \<ge> int (length lvs)) \<and>
         (0 \<le> index \<and> index < int (length lvs) \<longrightarrow>
            (\<exists>s p. MerkleTree_opening t index = Inr (s, p))) \<and>
         length (leaves t) = length lvs"
proof (cases "0 \<le> index \<and> index < int (length lvs)")
  case True
  then have "\<exists>s p. MerkleTree_opening t index = Inr (s, p)"
    using MerkleTree_opening_built[OF assms, of index] by blast
  with True MerkleTree_init_built(2)[OF assms] show ?thesis by auto
next
  case False
  with MerkleTree_init_built(2)[OF assms] show ?thesis
    by (auto simp: MerkleTree_opening_def)
qed

theorem opening_bounds_witness:
  "MerkleTree_init toy_digest [1, 2, 3] = Inr toy_tree \<and>
   MerkleTree_opening toy_tree 3 = Inl IndexOutOfRange \<and>
   MerkleTree_opening toy_tree (- 1) = Inl IndexOutOfRange \<and>
   (\<exists>s p. MerkleTree_opening toy_tree 2 = Inr (s, p))"
  using opening_bounds[OF toy_tree_built, of 3] opening_bounds[OF toy_tree_built, of "- 1"]
    opening_bounds[OF toy_tree_built, of 2] toy_tree_built
  by simp

section \<open>The algorithm of opening\<close>

lemma cursor_at_div: "cursor_at index h = index div 2 ^ h"
proof (induction h)
  case 0
  show ?case by simp
next
  case (Suc h)
  have "index div (2 ^ h * 2) = index div 2 ^ h div 2"
    by (rule zdiv_zmult2_eq) simp
  then have "index div 2 ^ Suc h = index div 2 ^ h div 2"
    by (simp add: mult.commute)
  with Suc show ?case by simp
qed

text \<open>
  C3. On a built tree and a valid index, \<open>opening\<close> returns two sequences whose length
  is the height, the number of levels minus one. With the cursor starting at the index
  and halved from one level to the next (\<open>cursor_at\<close>), at each level below the root
  the cursor lies inside the level, the position recorded is the cursor modulo 2, and
  the sibling recorded is the node at \<open>cursor XOR 1\<close> when that is inside the level and
  the node at the cursor itself otherwise.
\<close>

theorem opening_algorithm:
  assumes "MerkleTree_init sha lvs = Inr t" "0 \<le> index" "index < int (length lvs)"
  shows "\<exists>s p. MerkleTree_opening t index = Inr (s, p) \<and>
    height t = length (levels t) - 1 \<and> length s = height t \<and> length p = height t \<and>
    (\<forall>h < height t.
       0 \<le> cursor_at index h \<and> cursor_at index h < int (length (levels t ! h)) \<and>
       p ! h = cursor_at index h mod 2 \<and>
       s ! h = (if cursor_at index h XOR 1 < int (length (levels t ! h))
                then levels t ! h ! nat (cursor_at index h XOR 1)
                else levels t ! h ! nat (cursor_at index h)))"
  using MerkleTree_opening_built[OF assms]
  unfolding cursor_at_div sibling_at_def by (simp add: height_def)

theorem opening_algorithm_witness:
  "MerkleTree_init toy_digest [1, 2, 3] = Inr toy_tree \<and> (0::int) \<le> 2 \<and>
   (2::int) < int (length [1, 2, 3 :: int]) \<and>
   (\<exists>s p. MerkleTree_opening toy_tree 2 = Inr (s, p) \<and> length s = 2 \<and> length p = 2 \<and>
      p ! 1 = cursor_at 2 1 mod 2)"
proof -
  have lo: "(0::int) \<le> 2" and hi: "(2::int) < int (length [1, 2, 3 :: int])" by simp_all
  have h: "height toy_tree = 2" by (simp add: height_def toy_tree_def)
  from opening_algorithm[OF toy_tree_built lo hi] obtain s p where
    "MerkleTree_opening toy_tree 2 = Inr (s, p)" "length s = height toy_tree"
    "length p = height toy_tree"
    "\<forall>h < height toy_tree. p ! h = cursor_at 2 h mod 2"
    by blast
  with h have "MerkleTree_opening toy_tree 2 = Inr (s, p) \<and> length s = 2 \<and> length p = 2 \<and>
      p ! 1 = cursor_at 2 1 mod 2" by simp
  with toy_tree_built lo hi show ?thesis by blast
qed

text \<open>
  C9. Whenever \<open>opening\<close> records the node itself as its sibling, because
  \<open>cursor XOR 1\<close> is outside the level, the position recorded at that level is 0: the
  lone trailing node is the left operand. This agrees with the construction, where the
  parent of that node is \<open>merkle_hash2\<close> of the node with itself.
\<close>

theorem self_sibling_is_left_operand:
  assumes "MerkleTree_init sha lvs = Inr t" "0 \<le> index" "index < int (length lvs)"
    and "MerkleTree_opening t index = Inr (s, p)" "h < height t"
    and "int (length (levels t ! h)) \<le> cursor_at index h XOR 1"
  shows "s ! h = levels t ! h ! nat (cursor_at index h) \<and> p ! h = 0 \<and>
    merkle_hash2 sha (s ! h) (s ! h) = Inr (levels t ! Suc h ! nat (cursor_at index (Suc h)))"
proof -
  note b = MerkleTree_init_built[OF assms(1)]
  let ?l = "levels t ! h" and ?c = "cursor_at index h"
  from MerkleTree_opening_built[OF assms(1-3)] assms(4,5)
  have lo: "0 \<le> ?c" and hi: "?c < int (length ?l)" and ph: "p ! h = ?c mod 2"
    and sh: "s ! h = sibling_at ?l ?c"
    by (auto simp: cursor_at_div)
  have ev: "even ?c"
  proof (rule ccontr)
    assume "odd ?c"
    then have "?c XOR 1 = ?c - 1" by (simp add: xor_one_int)
    with hi assms(6) show False by simp
  qed
  then have x: "?c XOR 1 = ?c + 1" by (simp add: xor_one_int)
  from ev ph have p0: "p ! h = 0" by simp
  from sh assms(6) have s0: "s ! h = ?l ! nat ?c" by (simp add: sibling_at_def)
  have i: "Suc h < length (levels t)" using assms(5) by (simp add: height_def)
  from levels_chain_step[OF b(3) i] have nx: "levels t ! Suc h = next_row sha ?l" by simp
  have "?l \<in> set (levels t)" using i by simp
  with b(5) have fld: "\<forall>x\<in>set ?l. in_field x" by blast
  define j where "j = nat (?c div 2)"
  have "nat ?c = nat (2 * (?c div 2))" using ev by simp
  also have "\<dots> = 2 * nat (?c div 2)" by (simp add: nat_mult_distrib)
  finally have j2: "2 * j = nat ?c" unfolding j_def by simp
  have jl: "j < (length ?l + 1) div 2" using hi lo j2 by arith
  have last_node: "\<not> 2 * j + 1 < length ?l" using assms(6) x lo unfolding j2 by simp
  have fs: "in_field (?l ! nat ?c)" using fld hi lo by simp
  have "levels t ! Suc h ! nat (cursor_at index (Suc h)) = parent_of sha ?l j"
    unfolding nx next_row_def using jl by (simp add: j_def)
  also have "\<dots> = hash2 sha (?l ! nat ?c) (?l ! nat ?c)"
    unfolding parent_of_def using last_node by (simp add: j2)
  finally have "merkle_hash2 sha (?l ! nat ?c) (?l ! nat ?c)
      = Inr (levels t ! Suc h ! nat (cursor_at index (Suc h)))"
    using merkle_hash2_in_field[OF fs fs] by simp
  with s0 p0 show ?thesis by simp
qed

theorem self_sibling_is_left_operand_witness:
  "MerkleTree_init toy_digest [1, 2, 3] = Inr toy_tree \<and>
   MerkleTree_opening toy_tree 2 = Inr ([3, 131], [0, 1]) \<and>
   int (length (levels toy_tree ! 0)) \<le> cursor_at 2 0 XOR 1 \<and>
   [3, 131] ! 0 = levels toy_tree ! 0 ! nat (cursor_at 2 0) \<and> [0, 1 :: int] ! 0 = 0 \<and>
   merkle_hash2 toy_digest ([3, 131] ! 0) ([3, 131] ! 0)
     = Inr (levels toy_tree ! Suc 0 ! nat (cursor_at 2 (Suc 0)))"
proof -
  have lo: "(0::int) \<le> 2" and hi: "(2::int) < int (length [1, 2, 3 :: int])" by simp_all
  have h: "0 < height toy_tree" by (simp add: height_def toy_tree_def)
  have out: "int (length (levels toy_tree ! 0)) \<le> cursor_at 2 0 XOR 1"
    by (simp add: toy_tree_def)
  from self_sibling_is_left_operand[OF toy_tree_built lo hi toy_tree_opening_2 h out]
    toy_tree_built toy_tree_opening_2 out
  show ?thesis by blast
qed

section \<open>Inclusion soundness\<close>

lemma gadget_hash_tree_gadget:
  "in_field l \<Longrightarrow> in_field r \<Longrightarrow> gadget_hash (tree_gadget sha) l r = merkle_hash2 sha l r"
  by (simp add: gadget_hash_def tree_gadget_def merkle_hash2_in_field py_index_def)

lemma walk_of_chain:
  "levels_chain sha ls \<Longrightarrow> \<forall>l\<in>set ls. \<forall>x\<in>set l. in_field x \<Longrightarrow>
   \<forall>l r. in_field l \<longrightarrow> in_field r \<longrightarrow> hash l r = merkle_hash2 sha l r \<Longrightarrow>
   0 \<le> idx \<Longrightarrow> idx < int (length (hd ls)) \<Longrightarrow>
   opening_loop (butlast ls) idx [] [] = Inr (s, p) \<Longrightarrow>
   spec_walk hash (hd ls ! nat idx) s p = Inr (last ls ! 0)"
proof (induction sha ls arbitrary: idx s p rule: levels_chain.induct)
  case (1 sha)
  then show ?case by simp
next
  case (2 sha l)
  from "2.prems"(1,4,5) have "nat idx = 0" by simp
  with "2.prems"(6) show ?case by auto
next
  case (3 sha l l' rest)
  from "3.prems"(1) have c: "l' = next_row sha l \<and> levels_chain sha (l' # rest)"
    unfolding levels_chain.simps by (rule conjunct2)
  from c have l': "l' = next_row sha l" by (rule conjunct1)
  from c have ch: "levels_chain sha (l' # rest)" by (rule conjunct2)
  from "3.prems"(4) have lo: "0 \<le> idx" .
  from "3.prems"(5) have hi: "idx < int (length l)" by simp
  from "3.prems"(2) have fl: "\<forall>x\<in>set l. in_field x"
    and fr: "\<forall>k\<in>set (l' # rest). \<forall>x\<in>set k. in_field x" by simp_all
  note same = "3.prems"(3)
  from cursor_stays_in_range[OF lo hi, of sha] l'
  have lo': "0 \<le> idx div 2" and hi': "idx div 2 < int (length (hd (l' # rest)))" by simp_all
  from opening_loop_step[OF lo hi, of "butlast (l' # rest)"] "3.prems"(6)
  obtain s' p' where o: "opening_loop (butlast (l' # rest)) (idx div 2) [] [] = Inr (s', p')"
    and s: "s = sibling_at l idx # s'" and p: "p = idx mod 2 # p'"
    by (auto split: sum.splits prod.splits)
  have fn: "in_field (l ! nat idx)" using fl lo hi by simp
  have fs: "in_field (sibling_at l idx)" using sibling_at_in_field[OF fl lo hi] .
  have "(if idx mod 2 = 0 then hash (l ! nat idx) (sibling_at l idx)
         else hash (sibling_at l idx) (l ! nat idx))
        = (if idx mod 2 = 0 then merkle_hash2 sha (l ! nat idx) (sibling_at l idx)
           else merkle_hash2 sha (sibling_at l idx) (l ! nat idx))"
    using same fn fs by simp
  also have "\<dots> = Inr (l' ! nat (idx div 2))"
    unfolding l' using pair_hash_is_parent[OF fl lo hi] .
  finally have step: "(if idx mod 2 = 0 then hash (l ! nat idx) (sibling_at l idx)
         else hash (sibling_at l idx) (l ! nat idx)) = Inr (l' ! nat (idx div 2))" .
  have "spec_walk hash (hd (l # l' # rest) ! nat idx) s p =
        spec_walk hash (l' ! nat (idx div 2)) s' p'"
    unfolding s p using step by simp
  also have "\<dots> = Inr (last (l' # rest) ! 0)"
    using "3.IH"[OF ch fr same lo' hi' o] by simp
  finally show ?case by simp
qed

text \<open>
  C1. Inclusion soundness. For a tree built from a non-empty leaf sequence and every
  valid index \<open>i\<close>, the recomputation walk, started from the tree's leaf \<open>i\<close> (the leaf
  as stored, reduced into the field) with the siblings and positions \<open>opening(i)\<close>
  returns, yields the value \<open>root()\<close> returns, provided the gadget of the walk is the
  hash the tree was built with: on field elements, its first output is what
  \<open>merkle_hash2\<close> returns.
\<close>

theorem inclusion_soundness:
  assumes "MerkleTree_init sha lvs = Inr t" "0 \<le> index" "index < int (length lvs)"
    and "\<forall>l r. in_field l \<longrightarrow> in_field r \<longrightarrow> gadget_hash gadget l r = merkle_hash2 sha l r"
  shows "\<exists>s p r. MerkleTree_opening t index = Inr (s, p) \<and> root t = Inr r \<and>
           leaves t ! nat index = field (lvs ! nat index) \<and>
           recompute gadget (leaves t ! nat index) s p = Inr r"
proof -
  note b = MerkleTree_init_built[OF assms(1)]
  have hi: "index < int (length (hd (levels t)))" using assms(3) b(4) by simp
  from MerkleTree_opening_built[OF assms(1-3)] obtain s p where
    o: "MerkleTree_opening t index = Inr (s, p)" and ls: "length s = height t"
    and lp: "length p = height t"
    and ph: "\<forall>h < height t. p ! h = (index div 2 ^ h) mod 2"
    by blast
  have ol: "opening_loop (butlast (levels t)) index [] [] = Inr (s, p)"
    using o assms(2,3) b(2) by (simp add: MerkleTree_opening_def butlast_conv_take)
  have bits: "\<forall>q\<in>set p. q = 0 \<or> q = 1"
  proof
    fix q assume "q \<in> set p"
    then obtain h where "h < length p" "q = p ! h" by (auto simp: in_set_conv_nth)
    with ph lp have "q = (index div 2 ^ h) mod 2" by simp
    then show "q = 0 \<or> q = 1" by presburger
  qed
  have lf: "leaves t ! nat index = hd (levels t) ! nat index" using b(2,4) by simp
  have lfv: "leaves t ! nat index = field (lvs ! nat index)"
    using b(2) assms(2,3) by simp
  have "recompute gadget (leaves t ! nat index) s p =
        spec_walk (gadget_hash gadget) (leaves t ! nat index) s p"
    using ls lp bits by (intro recompute_valid) simp_all
  also have "\<dots> = Inr (last (levels t) ! 0)"
    unfolding lf using walk_of_chain[OF b(3) b(5) assms(4) assms(2) hi ol] .
  finally have "recompute gadget (leaves t ! nat index) s p = Inr (last (levels t) ! 0)" .
  with o root_of_chain[OF b(3)] lfv show ?thesis by simp
qed

theorem inclusion_soundness_witness:
  "MerkleTree_init toy_digest [1, 2, 3] = Inr toy_tree \<and>
   MerkleTree_opening toy_tree 2 = Inr ([3, 131], [0, 1]) \<and> root toy_tree = Inr 137 \<and>
   recompute (tree_gadget toy_digest) (leaves toy_tree ! nat 2) [3, 131] [0, 1] = Inr 137"
proof -
  have lo: "(0::int) \<le> 2" and hi: "(2::int) < int (length [1, 2, 3 :: int])" by simp_all
  have same: "\<forall>l r. in_field l \<longrightarrow> in_field r \<longrightarrow>
      gadget_hash (tree_gadget toy_digest) l r = merkle_hash2 toy_digest l r"
    by (simp add: gadget_hash_tree_gadget)
  from inclusion_soundness[OF toy_tree_built lo hi same] toy_tree_opening_2 toy_tree_root
    toy_tree_built
  show ?thesis by auto
qed

section \<open>The walk of the circuit and its precondition checks\<close>

text \<open>
  C4. Given siblings and positions of equal length with every position 0 or 1, the
  code's walk is the walk of the specification (\<open>spec_walk\<close>): starting from the leaf,
  level by level in order, the needle becomes the hash of \<open>(needle, sibling)\<close> when the
  position is 0 and of \<open>(sibling, needle)\<close> otherwise; no commutativity of the hash is
  used. The circuit then asserts that the final needle equals the public root: it
  succeeds when they are equal and fails with \<open>VerificationFailure\<close> otherwise.
\<close>

theorem recompute_walk:
  fixes leaf public_root :: "'v::group_add"
  assumes "length siblings = length positions" "\<forall>p\<in>set positions. p = 0 \<or> p = 1"
  shows "recompute gadget leaf siblings positions =
           spec_walk (gadget_hash gadget) leaf siblings positions \<and>
         merkle_opening_circuit gadget leaf siblings positions public_root =
           (case spec_walk (gadget_hash gadget) leaf siblings positions of
              Inl e \<Rightarrow> Inl e
            | Inr needle \<Rightarrow>
                if needle = public_root then Inr () else Inl VerificationFailure)"
proof -
  have r: "recompute gadget leaf siblings positions =
           spec_walk (gadget_hash gadget) leaf siblings positions"
    using assms by (rule recompute_valid)
  show ?thesis
    unfolding merkle_opening_circuit_def r by (simp split: sum.splits)
qed

theorem recompute_walk_witness:
  "length [2 :: int] = length [0 :: int] \<and>
   recompute (tree_gadget toy_digest) 1 [2] [0] = Inr 131 \<and>
   recompute (tree_gadget toy_digest) 1 [2] [1] = Inr 3 \<and>
   merkle_opening_circuit (tree_gadget toy_digest) 1 [2] [0] 131 = Inr () \<and>
   merkle_opening_circuit (tree_gadget toy_digest) 1 [2] [1] 131 = Inl VerificationFailure"
proof -
  have l: "length [2 :: int] = length [0 :: int]" "length [2 :: int] = length [1 :: int]"
    by simp_all
  have b: "\<forall>p\<in>set [0 :: int]. p = 0 \<or> p = 1" "\<forall>p\<in>set [1 :: int]. p = 0 \<or> p = 1"
    by simp_all
  have f: "in_field 1" "in_field 2" by (simp_all add: in_field_def FIELD_MODULUS_def)
  have h12: "merkle_hash2 toy_digest 1 2 = Inr 131" by code_simp
  have h21: "merkle_hash2 toy_digest 2 1 = Inr 3" by code_simp
  have w0: "spec_walk (gadget_hash (tree_gadget toy_digest)) (1 :: int) [2] [0] = Inr 131"
    using h12 by (simp add: gadget_hash_tree_gadget f)
  have w1: "spec_walk (gadget_hash (tree_gadget toy_digest)) (1 :: int) [2] [1] = Inr 3"
    using h21 by (simp add: gadget_hash_tree_gadget f)
  from recompute_walk[OF l(1) b(1), of "tree_gadget toy_digest" 1 131]
    recompute_walk[OF l(2) b(2), of "tree_gadget toy_digest" 1 131] w0 w1 l b
  show ?thesis by simp
qed

text \<open>
  C6. The walk checks its preconditions in the order of the source, before the loop
  that hashes. It fails with \<open>LengthMismatch\<close> whenever the siblings and the positions
  differ in length; the lengths being equal, it fails with \<open>InvalidPositionBit\<close>
  whenever some position is neither 0 nor 1. Both failures come before any hashing:
  they are returned whatever the gadget is, also for one whose own failure the walk
  would otherwise report.
\<close>

theorem recompute_precondition_checks:
  "(length siblings \<noteq> length positions \<longrightarrow>
      recompute gadget leaf siblings positions = Inl LengthMismatch) \<and>
   (length siblings = length positions \<and> (\<exists>p\<in>set positions. p \<noteq> 0 \<and> p \<noteq> 1) \<longrightarrow>
      recompute gadget leaf siblings positions = Inl InvalidPositionBit)"
  by (simp add: recompute_def check_positions_bad)

theorem recompute_precondition_checks_witness:
  "length [5 :: int] \<noteq> length ([] :: int list) \<and>
   recompute (\<lambda>xs. []) (1 :: int) [5] [] = Inl LengthMismatch \<and>
   length [5, 6 :: int] = length [0, 2 :: int] \<and> [0, 2 :: int] ! 1 \<noteq> 0 \<and>
   [0, 2 :: int] ! 1 \<noteq> 1 \<and>
   recompute (\<lambda>xs. []) (1 :: int) [5, 6] [0, 2] = Inl InvalidPositionBit \<and>
   recompute (\<lambda>xs. []) (1 :: int) [5, 6] [0, 1] = Inl ListIndexError"
proof -
  have a: "length [5 :: int] \<noteq> length ([] :: int list)" by simp
  have b: "length [5, 6 :: int] = length [0, 2 :: int] \<and>
           (\<exists>p\<in>set [0, 2 :: int]. p \<noteq> 0 \<and> p \<noteq> 1)" by simp
  have c: "recompute (\<lambda>xs. []) (1 :: int) [5, 6] [0, 1] = Inl ListIndexError"
    by (simp add: recompute_def py_index_def)
  from recompute_precondition_checks[of "[5 :: int]" "[]" "\<lambda>xs. []" 1]
    recompute_precondition_checks[of "[5, 6 :: int]" "[0, 2]" "\<lambda>xs. []" 1] a b c
  show ?thesis by simp
qed

end
